theory Spec2Isabelle
  imports Complex_Main "HOL-Library.Word"
begin

unbundle bit_operations_syntax

section \<open>Constants and the wire format\<close>

text \<open>
  Both scripts fix the number of load-cell channels to twelve and describe one BLE
  notification with the \<open>struct\<close> format \<open>"<" + "f"*N_CH\<close>: little-endian, standard
  sizes, twelve single-precision floats.
\<close>

type_synonym byte = "8 word"

definition N_CH :: nat where
  "N_CH = 12"

definition frame_format :: string where
  "frame_format = CHR ''<'' # replicate N_CH (CHR ''f'')"

text \<open>
  \<open>struct.calcsize\<close> for a format made of the byte-order mark \<open><\<close> and \<open>f\<close> codes:
  four bytes for each \<open>f\<close>, no padding.
\<close>

definition calcsize :: "string \<Rightarrow> nat" where
  "calcsize fmt = 4 * length (filter (\<lambda>c. c = CHR ''f'') fmt)"

text \<open>The 32-bit pattern held by four consecutive bytes, least significant byte first.\<close>

definition le32 :: "byte \<Rightarrow> byte \<Rightarrow> byte \<Rightarrow> byte \<Rightarrow> 32 word" where
  "le32 b0 b1 b2 b3 =
     ucast b0 OR push_bit 8 (ucast b1) OR push_bit 16 (ucast b2) OR push_bit 24 (ucast b3)"

text \<open>
  The exceptions the modelled code can raise: \<open>struct.error\<close> from \<open>unpack\<close> on a buffer
  of the wrong size, \<open>IndexError\<close> from \<open>scalar_chans[i]\<close>, and whatever a channel's
  \<open>log\<close> raises.
\<close>

datatype error = StructError | IndexError | LogError

text \<open>
  What lies outside the two scripts is a parameter of the model:
  \<^item> \<open>widen\<close>: the Python float that \<open>struct\<close> builds from the bit pattern of one
    IEEE-754 single (the conversion to double precision is done inside \<open>struct\<close>);
  \<^item> \<open>wall_clock\<close>: the value returned by the \<open>k\<close>-th call of \<open>time.time()\<close>;
  \<^item> \<open>fsub\<close>: the subtraction of two Python floats, which gives the double nearest to
    the exact difference and not, in general, the exact difference;
  \<^item> \<open>chan_log\<close>: the effect of \<open>Channel.log\<close> of the Foxglove SDK on a channel, or the
    exception it raises.
\<close>

text \<open>
  The two JSON messages, \<open>{"t": now, "data": [...]}\<close> and \<open>{"t": now, "value": v}\<close>, and a
  channel as its topic and the messages logged on it so far (its encoding and schema
  play no part here). A time is the real number that the double stands for.
\<close>

datatype 'v msg = RawMsg real "'v list" | ScalarMsg real 'v

record 'v Channel =
  topic :: string
  published :: "'v msg list"

record 'v env =
  widen :: "32 word \<Rightarrow> 'v"
  wall_clock :: "nat \<Rightarrow> real"
  fsub :: "real \<Rightarrow> real \<Rightarrow> real"
  chan_log :: "'v Channel \<Rightarrow> 'v msg \<Rightarrow> error + 'v Channel"

section \<open>Frame decoding\<close>

text \<open>The body of \<open>unpack\<close> once the size is right: one float for each group of four bytes.\<close>

fun unpack_floats :: "(32 word \<Rightarrow> 'v) \<Rightarrow> byte list \<Rightarrow> 'v list" where
  "unpack_floats w (b0 # b1 # b2 # b3 # rest) = w (le32 b0 b1 b2 b3) # unpack_floats w rest"
| "unpack_floats w _ = []"

text \<open>\<open>struct.unpack(fmt, data)\<close>: raises \<open>struct.error\<close> unless the buffer has the format's size.\<close>

definition unpack :: "'v env \<Rightarrow> string \<Rightarrow> byte list \<Rightarrow> error + 'v list" where
  "unpack e fmt data =
     (if length data \<noteq> calcsize fmt then Inl StructError
      else Inr (unpack_floats (widen e) data))"

section \<open>The state of one run\<close>

text \<open>
  The calls a script makes on its collaborators, in the order made: \<open>client.start_notify\<close>,
  the redrawing of the plot (\<open>plt.pause\<close>), the \<open>print\<close> of the \<open>except\<close> clause,
  \<open>client.stop_notify\<close>, \<open>server.stop\<close> (through \<open>bridge.stop\<close>), the disconnect at the
  exit of \<open>async with BleakClient\<close>, and the writing of the CSV file.
\<close>

datatype call =
  StartNotify | PlotRefresh | PrintStopping | StopNotify | ServerStop | Disconnect | WriteCSV

text \<open>
  Common to both scripts: how many times \<open>time.time()\<close> has been called, whether the
  notification subscription is active, and the collaborator calls made so far.
\<close>

record proc =
  clock_reads :: nat
  subscribed :: bool
  calls :: "call list"

section \<open>demo_bluetooth.py\<close>

record 'v BLECollector =
  rows :: "(real \<times> 'v list) list"
  t0 :: real

text \<open>
  The state of \<open>main\<close>: the collector, the data of the three plotted lines (for each
  line the times and the values of its channel), and the CSV file once written.
\<close>

record 'v collect_proc = proc +
  collector :: "'v BLECollector"
  plot_lines :: "(real list \<times> 'v list) list"
  out_csv :: "(string list \<times> (real \<times> 'v list) list) option"

text \<open>
  \<open>BLECollector.callback\<close>: unpack, read the clock, append the row. \<open>unpack\<close> is the
  first statement, so an exception leaves the collector as it was.
\<close>

definition callback :: "'v env \<Rightarrow> 'v collect_proc \<Rightarrow> byte list \<Rightarrow> error + 'v collect_proc" where
  "callback e p data =
     (case unpack e frame_format data of
        Inl err \<Rightarrow> Inl err
      | Inr vals \<Rightarrow>
          let t = fsub e (wall_clock e (clock_reads p)) (t0 (collector p))
          in Inr (p\<lparr>clock_reads := Suc (clock_reads p),
                    collector := (collector p)\<lparr>rows := rows (collector p) @ [(t, vals)]\<rparr>\<rparr>))"

text \<open>
  The state of \<open>main\<close> when it enters its loop: the collector was built by
  \<open>BLECollector()\<close>, which reads the clock once for \<open>t0\<close> (\<open>k\<close> clock reads came before),
  \<open>start_notify\<close> has returned and the three lines of the plot have been made, empty.
\<close>

definition main_subscribed :: "'v env \<Rightarrow> nat \<Rightarrow> 'v collect_proc" where
  "main_subscribed e k =
     \<lparr>clock_reads = Suc k, subscribed = True, calls = [StartNotify],
      collector = \<lparr>rows = [], t0 = wall_clock e k\<rparr>,
      plot_lines = replicate 3 ([], []), out_csv = None\<rparr>"

text \<open>
  The notifications of a run, handed to the callback one after the other while the
  subscription is active; the run is followed up to the first exception.
\<close>

fun collect_frames :: "'v env \<Rightarrow> 'v collect_proc \<Rightarrow> byte list list \<Rightarrow> error + 'v collect_proc" where
  "collect_frames e p [] = Inr p"
| "collect_frames e p (d # ds) =
     (if subscribed p
      then (case callback e p d of Inl err \<Rightarrow> Inl err | Inr p' \<Rightarrow> collect_frames e p' ds)
      else Inr p)"

text \<open>Decimal digits of a number, as \<open>str\<close> and the f-strings print it.\<close>

fun str_nat :: "nat \<Rightarrow> string" where
  "str_nat n =
     (if n < 10 then [char_of (48 + n)]
      else str_nat (n div 10) @ [char_of (48 + n mod 10)])"

declare str_nat.simps [simp del]







section \<open>demo_ble_to_foxglove.py\<close>

record 'v FoxgloveBridge =
  server_running :: bool
  raw_chan :: "'v Channel"
  scalar_chans :: "'v Channel list"

record 'v stream_proc = proc +
  bridge :: "'v FoxgloveBridge"

text \<open>\<open>FoxgloveBridge.__init__\<close>: the server is started and the thirteen channels are made.\<close>

definition new_bridge :: "'v FoxgloveBridge" where
  "new_bridge =
     \<lparr>server_running = True,
      raw_chan = \<lparr>topic = ''/load_cells/raw'', published = []\<rparr>,
      scalar_chans =
        map (\<lambda>i. \<lparr>topic = ''/load_cells/ch'' @ str_nat (i + 1), published = []\<rparr>) [0..<N_CH]\<rparr>"

text \<open>A channel whose \<open>log\<close> succeeds keeps the message after those it already has.\<close>

definition publish :: "'v Channel \<Rightarrow> 'v msg \<Rightarrow> error + 'v Channel" where
  "publish c m = Inr (c\<lparr>published := published c @ [m]\<rparr>)"

text \<open>
  The loop \<open>for i, v in enumerate(values): self.scalar_chans[i].log(...)\<close>, from index \<open>i\<close>
  on. An exception leaves the loop with the channels already written changed.
\<close>

fun log_scalars ::
  "'v env \<Rightarrow> real \<Rightarrow> nat \<Rightarrow> 'v list \<Rightarrow> 'v stream_proc \<Rightarrow> (error \<times> 'v stream_proc) + 'v stream_proc" where
  "log_scalars e now i [] p = Inr p"
| "log_scalars e now i (v # vs) p =
     (if length (scalar_chans (bridge p)) \<le> i then Inl (IndexError, p)
      else (case chan_log e (scalar_chans (bridge p) ! i) (ScalarMsg now v) of
              Inl err \<Rightarrow> Inl (err, p)
            | Inr c \<Rightarrow>
                log_scalars e now (Suc i) vs
                  (p\<lparr>bridge := (bridge p)\<lparr>scalar_chans := (scalar_chans (bridge p))[i := c]\<rparr>\<rparr>)))"

text \<open>\<open>FoxgloveBridge.log_frame\<close>: one clock read, the aggregated message, then the scalars.\<close>

definition log_frame ::
  "'v env \<Rightarrow> 'v stream_proc \<Rightarrow> 'v list \<Rightarrow> (error \<times> 'v stream_proc) + 'v stream_proc" where
  "log_frame e p vals =
     (let now = wall_clock e (clock_reads p);
          p1 = p\<lparr>clock_reads := Suc (clock_reads p)\<rparr>
      in (case chan_log e (raw_chan (bridge p1)) (RawMsg now vals) of
            Inl err \<Rightarrow> Inl (err, p1)
          | Inr c \<Rightarrow> log_scalars e now 0 vals (p1\<lparr>bridge := (bridge p1)\<lparr>raw_chan := c\<rparr>\<rparr>)))"

text \<open>\<open>on_notify\<close>: a buffer of another size than the unpacker's is ignored.\<close>

definition on_notify ::
  "'v env \<Rightarrow> 'v stream_proc \<Rightarrow> byte list \<Rightarrow> (error \<times> 'v stream_proc) + 'v stream_proc" where
  "on_notify e p data =
     (if length data \<noteq> calcsize frame_format then Inr p
      else (case unpack e frame_format data of
              Inl err \<Rightarrow> Inl (err, p)
            | Inr vals \<Rightarrow> log_frame e p vals))"

text \<open>The state of \<open>connect_ble_and_stream\<close> once \<open>start_notify\<close> has returned.\<close>

definition stream_subscribed :: "nat \<Rightarrow> 'v stream_proc" where
  "stream_subscribed k =
     \<lparr>clock_reads = k, subscribed = True, calls = [StartNotify], bridge = new_bridge\<rparr>"

fun stream_frames ::
  "'v env \<Rightarrow> 'v stream_proc \<Rightarrow> byte list list \<Rightarrow> (error \<times> 'v stream_proc) + 'v stream_proc" where
  "stream_frames e p [] = Inr p"
| "stream_frames e p (d # ds) =
     (if subscribed p
      then (case on_notify e p d of Inl x \<Rightarrow> Inl x | Inr p' \<Rightarrow> stream_frames e p' ds)
      else Inr p)"


section \<open>The loops and what follows them\<close>












section \<open>Concrete inputs\<close>

text \<open>
  An environment in which every channel records what it is sent and a float is shown by
  the bit pattern of its single, with a given clock; and two buffers, one of the frame
  size and one of 40 bytes. The clocks used with it read small whole numbers, whose
  differences are doubles, so that the subtraction of floats is the exact one there.
\<close>

definition recording_env :: "(nat \<Rightarrow> real) \<Rightarrow> (32 word) env" where
  "recording_env clock =
     \<lparr>widen = (\<lambda>w. w), wall_clock = clock, fsub = (\<lambda>a b. a - b), chan_log = publish\<rparr>"

definition zero_frame :: "byte list" where
  "zero_frame = replicate 48 0"

definition short_frame :: "byte list" where
  "short_frame = replicate 40 0"

definition ramp_frame :: "byte list" where
  "ramp_frame = map of_nat [0..<48]"

section \<open>Auxiliary definitions\<close>

text \<open>A channel after one more message has been logged on it.\<close>

definition sent :: "'v msg \<Rightarrow> 'v Channel \<Rightarrow> 'v Channel" where
  "sent m c = c\<lparr>published := published c @ [m]\<rparr>"

text \<open>
  The scalar channels after the loop of \<open>log_frame\<close> has logged the values \<open>vs\<close> on the
  channels \<open>i\<close>, \<open>i + 1\<close>, ... with every \<open>log\<close> succeeding.
\<close>

fun scalars_logged :: "real \<Rightarrow> nat \<Rightarrow> 'v list \<Rightarrow> 'v Channel list \<Rightarrow> 'v Channel list" where
  "scalars_logged now i [] cs = cs"
| "scalars_logged now i (v # vs) cs =
     scalars_logged now (Suc i) vs (cs[i := sent (ScalarMsg now v) (cs ! i)])"

text \<open>The \<open>"t"\<close> entry of a message.\<close>

fun msg_t :: "'v msg \<Rightarrow> real" where
  "msg_t (RawMsg t vs) = t"
| "msg_t (ScalarMsg t v) = t"

text \<open>
  A wall clock that is set back: the first read gives 0, the second 10, every later
  one 5.
\<close>

definition regressing_clock :: "nat \<Rightarrow> real" where
  "regressing_clock k = (if k = 0 then 0 else if k = 1 then 10 else 5)"

text \<open>An environment in which \<open>log\<close> raises on the channel of topic \<open>t\<close> and on no other.\<close>

definition failing_env :: "string \<Rightarrow> (nat \<Rightarrow> real) \<Rightarrow> (32 word) env" where
  "failing_env t clock =
     \<lparr>widen = (\<lambda>w. w), wall_clock = clock, fsub = (\<lambda>a b. a - b),
      chan_log = (\<lambda>c m. if topic c = t then Inl LogError else publish c m)\<rparr>"

section \<open>Facts about the decoder\<close>

lemma calcsize_frame_format: "calcsize frame_format = 48"
  by (simp add: calcsize_def frame_format_def N_CH_def)

lemma length_unpack_floats: "length (unpack_floats w data) = length data div 4"
  by (induction w data rule: unpack_floats.induct) simp_all

lemma nth_unpack_floats:
  "i < length data div 4 \<Longrightarrow>
   unpack_floats w data ! i =
     w (le32 (data ! (4 * i)) (data ! (4 * i + 1)) (data ! (4 * i + 2)) (data ! (4 * i + 3)))"
proof (induction w data arbitrary: i rule: unpack_floats.induct)
  case (1 w b0 b1 b2 b3 rest)
  show ?case
  proof (cases i)
    case 0
    then show ?thesis by simp
  next
    case (Suc j)
    with "1.prems" have "j < length rest div 4" by simp
    from "1.IH" [OF this] Suc show ?thesis by (simp add: add.commute)
  qed
qed simp_all

lemma unpack_frame:
  "length data = 48 \<Longrightarrow> unpack e frame_format data = Inr (unpack_floats (widen e) data)"
  by (simp add: unpack_def calcsize_frame_format)

lemma on_notify_ignores: "length data \<noteq> 48 \<Longrightarrow> on_notify e p data = Inr p"
  by (simp add: on_notify_def calcsize_frame_format)

lemma on_notify_frame:
  "length data = 48 \<Longrightarrow> on_notify e p data = log_frame e p (unpack_floats (widen e) data)"
  by (simp add: on_notify_def calcsize_frame_format unpack_frame)

lemma callback_frame:
  "length data = 48 \<Longrightarrow>
   callback e p data =
     Inr (p\<lparr>clock_reads := Suc (clock_reads p),
            collector := (collector p)\<lparr>rows := rows (collector p) @
              [(fsub e (wall_clock e (clock_reads p)) (t0 (collector p)),
                unpack_floats (widen e) data)]\<rparr>\<rparr>)"
  by (simp add: callback_def unpack_frame)

section \<open>Buffers of the wrong size\<close>

text \<open>
  Claim C1. A buffer whose length is not 48 bytes is to be dropped without an
  exception by both notification handlers. \<open>on_notify\<close> does so (lemma
  \<open>on_notify_ignores\<close>); \<open>BLECollector.callback\<close> has no length test, and on the
  40-byte buffer \<open>struct.unpack\<close> raises \<open>struct.error\<close> out of the callback.
\<close>

theorem callback_raises_on_short_frame:
  "callback e p short_frame = Inl StructError"
  by (simp add: callback_def unpack_def calcsize_frame_format short_frame_def)

section \<open>Decoding a frame\<close>

text \<open>
  What the two scripts fix of the decoding, whatever float \<open>struct\<close> makes of a bit
  pattern: a buffer of exactly \<open>N_CH * 4\<close> bytes is always accepted; the result has
  exactly \<open>N_CH\<close> values, in the order of the buffer, the \<open>i\<close>-th made from the 32-bit
  pattern that bytes \<open>4i .. 4i+3\<close> hold least significant byte first; and both handlers
  pass these values on as they are, \<open>on_notify\<close> to \<open>log_frame\<close>, \<open>callback\<close> into the new
  row. How a pattern is read as a single and widened to a double, and what becomes of
  the patterns of NaN, is decided inside \<open>struct\<close> and stays the parameter \<open>widen\<close>.
\<close>

lemma decode_frame_values:
  "length data = N_CH * 4 \<Longrightarrow>
   (\<exists>vals. unpack e frame_format data = Inr vals \<and> length vals = N_CH \<and>
      (\<forall>i < N_CH. vals ! i =
         widen e (le32 (data ! (4 * i)) (data ! (4 * i + 1))
                       (data ! (4 * i + 2)) (data ! (4 * i + 3)))) \<and>
      on_notify e p data = log_frame e p vals \<and>
      callback e q data =
        Inr (q\<lparr>clock_reads := Suc (clock_reads q),
               collector := (collector q)\<lparr>rows := rows (collector q) @
                 [(fsub e (wall_clock e (clock_reads q)) (t0 (collector q)), vals)]\<rparr>\<rparr>))"
  by (simp add: unpack_def calcsize_frame_format N_CH_def length_unpack_floats
      nth_unpack_floats on_notify_def callback_def)

lemma decode_frame_values_ramp:
  "length ramp_frame = N_CH * 4 \<and>
   (\<exists>vals. unpack (recording_env (\<lambda>k. 0)) frame_format ramp_frame = Inr vals \<and>
      length vals = 12 \<and> vals ! 0 = 50462976 \<and> vals ! 11 = 791555372)"
proof -
  let ?e = "recording_env (\<lambda>k. 0)"
  have len: "length ramp_frame = N_CH * 4"
    by (simp add: ramp_frame_def N_CH_def)
  from decode_frame_values [OF len, of ?e "stream_subscribed 0" "main_subscribed ?e 0"]
  obtain vals where u: "unpack ?e frame_format ramp_frame = Inr vals"
    and l: "length vals = N_CH"
    and v: "\<forall>i < N_CH. vals ! i =
         widen ?e (le32 (ramp_frame ! (4 * i)) (ramp_frame ! (4 * i + 1))
                        (ramp_frame ! (4 * i + 2)) (ramp_frame ! (4 * i + 3)))"
    by blast
  from v have "vals ! 0 = 50462976"
    by (simp add: N_CH_def recording_env_def ramp_frame_def le32_def)
  moreover from v have "vals ! 11 = 791555372"
    by (simp add: N_CH_def recording_env_def ramp_frame_def le32_def)
  ultimately show ?thesis using len u l by (simp add: N_CH_def)
qed

section \<open>Facts about logging a frame\<close>

lemma length_scalars_logged [simp]: "length (scalars_logged now i vs cs) = length cs"
  by (induction vs arbitrary: i cs) simp_all

lemma nth_scalars_logged:
  "i + length vs \<le> length cs \<Longrightarrow> j < length cs \<Longrightarrow>
   scalars_logged now i vs cs ! j =
     (if i \<le> j \<and> j < i + length vs then sent (ScalarMsg now (vs ! (j - i))) (cs ! j) else cs ! j)"
proof (induction vs arbitrary: i cs)
  case Nil
  then show ?case by auto
next
  case (Cons v vs)
  let ?cs = "cs[i := sent (ScalarMsg now v) (cs ! i)]"
  from Cons.prems have "Suc i + length vs \<le> length ?cs" "j < length ?cs" by simp_all
  from Cons.IH [OF this] Cons.prems show ?case
    by (cases "j = i") (auto simp: nth_list_update Suc_diff_le)
qed

lemma log_scalars_sent:
  "i + length vs \<le> length (scalar_chans (bridge p)) \<Longrightarrow>
   \<forall>j < length vs. chan_log e (scalar_chans (bridge p) ! (i + j)) (ScalarMsg now (vs ! j)) =
       publish (scalar_chans (bridge p) ! (i + j)) (ScalarMsg now (vs ! j)) \<Longrightarrow>
   log_scalars e now i vs p =
     Inr (p\<lparr>bridge := (bridge p)\<lparr>scalar_chans :=
            scalars_logged now i vs (scalar_chans (bridge p))\<rparr>\<rparr>)"
proof (induction vs arbitrary: i p)
  case Nil
  then show ?case by simp
next
  case (Cons v vs)
  let ?cs = "scalar_chans (bridge p)"
  let ?c = "sent (ScalarMsg now v) (?cs ! i)"
  let ?p' = "p\<lparr>bridge := (bridge p)\<lparr>scalar_chans := ?cs[i := ?c]\<rparr>\<rparr>"
  from Cons.prems(2) have "chan_log e (?cs ! (i + 0)) (ScalarMsg now ((v # vs) ! 0)) =
      publish (?cs ! (i + 0)) (ScalarMsg now ((v # vs) ! 0))"
    by blast
  then have here: "chan_log e (?cs ! i) (ScalarMsg now v) = Inr ?c"
    by (simp add: publish_def sent_def)
  from Cons.prems(1) have len: "Suc i + length vs \<le> length (scalar_chans (bridge ?p'))"
    by simp
  have rest: "\<forall>j < length vs.
      chan_log e (scalar_chans (bridge ?p') ! (Suc i + j)) (ScalarMsg now (vs ! j)) =
      publish (scalar_chans (bridge ?p') ! (Suc i + j)) (ScalarMsg now (vs ! j))"
  proof (intro allI impI)
    fix j assume "j < length vs"
    with Cons.prems(2) have "chan_log e (?cs ! (i + Suc j)) (ScalarMsg now ((v # vs) ! Suc j)) =
        publish (?cs ! (i + Suc j)) (ScalarMsg now ((v # vs) ! Suc j))"
      by (metis Suc_less_eq length_Cons)
    then show "chan_log e (scalar_chans (bridge ?p') ! (Suc i + j)) (ScalarMsg now (vs ! j)) =
      publish (scalar_chans (bridge ?p') ! (Suc i + j)) (ScalarMsg now (vs ! j))"
      by simp
  qed
  from Cons.IH [OF len rest] here Cons.prems(1) show ?case
    by simp
qed

lemma log_scalars_raises:
  "i + m < length (scalar_chans (bridge p)) \<Longrightarrow> m < length vs \<Longrightarrow>
   \<forall>j < m. chan_log e (scalar_chans (bridge p) ! (i + j)) (ScalarMsg now (vs ! j)) =
       publish (scalar_chans (bridge p) ! (i + j)) (ScalarMsg now (vs ! j)) \<Longrightarrow>
   chan_log e (scalar_chans (bridge p) ! (i + m)) (ScalarMsg now (vs ! m)) = Inl err \<Longrightarrow>
   log_scalars e now i vs p =
     Inl (err, p\<lparr>bridge := (bridge p)\<lparr>scalar_chans :=
            scalars_logged now i (take m vs) (scalar_chans (bridge p))\<rparr>\<rparr>)"
proof (induction m arbitrary: i vs p)
  case 0
  then obtain v vs' where "vs = v # vs'" by (cases vs) auto
  with 0 show ?case by simp
next
  case (Suc m)
  then obtain v vs' where vs: "vs = v # vs'" by (cases vs) auto
  let ?cs = "scalar_chans (bridge p)"
  let ?c = "sent (ScalarMsg now v) (?cs ! i)"
  let ?p' = "p\<lparr>bridge := (bridge p)\<lparr>scalar_chans := ?cs[i := ?c]\<rparr>\<rparr>"
  from Suc.prems(3) have "chan_log e (?cs ! (i + 0)) (ScalarMsg now (vs ! 0)) =
      publish (?cs ! (i + 0)) (ScalarMsg now (vs ! 0))"
    by blast
  then have here: "chan_log e (?cs ! i) (ScalarMsg now v) = Inr ?c"
    by (simp add: publish_def sent_def vs)
  from Suc.prems(1) have len: "Suc i + m < length (scalar_chans (bridge ?p'))"
    by simp
  from Suc.prems(2) vs have m: "m < length vs'" by simp
  have rest: "\<forall>j < m.
      chan_log e (scalar_chans (bridge ?p') ! (Suc i + j)) (ScalarMsg now (vs' ! j)) =
      publish (scalar_chans (bridge ?p') ! (Suc i + j)) (ScalarMsg now (vs' ! j))"
  proof (intro allI impI)
    fix j assume "j < m"
    then have "Suc j < Suc m" by simp
    with Suc.prems(3) have "chan_log e (?cs ! (i + Suc j)) (ScalarMsg now (vs ! Suc j)) =
        publish (?cs ! (i + Suc j)) (ScalarMsg now (vs ! Suc j))"
      by blast
    then show "chan_log e (scalar_chans (bridge ?p') ! (Suc i + j)) (ScalarMsg now (vs' ! j)) =
      publish (scalar_chans (bridge ?p') ! (Suc i + j)) (ScalarMsg now (vs' ! j))"
      by (simp add: vs)
  qed
  from Suc.prems(4) have bad: "chan_log e (scalar_chans (bridge ?p') ! (Suc i + m))
      (ScalarMsg now (vs' ! m)) = Inl err"
    by (simp add: vs)
  from Suc.IH [OF len m rest bad] here Suc.prems(1) show ?case
    by (simp add: vs)
qed

lemma log_frame_sent:
  assumes "chan_log e = publish" and "length vals \<le> length (scalar_chans (bridge p))"
  shows "log_frame e p vals =
     Inr (p\<lparr>clock_reads := Suc (clock_reads p),
            bridge := (bridge p)\<lparr>
              raw_chan := sent (RawMsg (wall_clock e (clock_reads p)) vals) (raw_chan (bridge p)),
              scalar_chans := scalars_logged (wall_clock e (clock_reads p)) 0 vals
                                (scalar_chans (bridge p))\<rparr>\<rparr>)"
proof -
  let ?now = "wall_clock e (clock_reads p)"
  let ?p2 = "p\<lparr>clock_reads := Suc (clock_reads p),
               bridge := (bridge p)\<lparr>raw_chan := sent (RawMsg ?now vals) (raw_chan (bridge p))\<rparr>\<rparr>"
  have "log_scalars e ?now 0 vals ?p2 =
      Inr (?p2\<lparr>bridge := (bridge ?p2)\<lparr>scalar_chans :=
            scalars_logged ?now 0 vals (scalar_chans (bridge ?p2))\<rparr>\<rparr>)"
    by (rule log_scalars_sent) (use assms in simp_all)
  then show ?thesis
    by (simp add: log_frame_def assms(1) publish_def sent_def Let_def)
qed

lemma stream_frames_published:
  assumes healthy: "chan_log e = publish"
  shows "subscribed p \<Longrightarrow> length (scalar_chans (bridge p)) = N_CH \<Longrightarrow>
    \<exists>p'. stream_frames e p ds = Inr p' \<and>
      clock_reads p' = clock_reads p + length (filter (\<lambda>d. length d = 48) ds) \<and>
      subscribed p' \<and> calls p' = calls p \<and>
      server_running (bridge p') = server_running (bridge p) \<and>
      raw_chan (bridge p') = (raw_chan (bridge p))\<lparr>published :=
        published (raw_chan (bridge p)) @
        map (\<lambda>(k, d). RawMsg (wall_clock e k) (unpack_floats (widen e) d))
          (enumerate (clock_reads p) (filter (\<lambda>d. length d = 48) ds))\<rparr> \<and>
      length (scalar_chans (bridge p')) = N_CH \<and>
      (\<forall>i < N_CH. scalar_chans (bridge p') ! i = (scalar_chans (bridge p) ! i)\<lparr>published :=
        published (scalar_chans (bridge p) ! i) @
        map (\<lambda>(k, d). ScalarMsg (wall_clock e k) (unpack_floats (widen e) d ! i))
          (enumerate (clock_reads p) (filter (\<lambda>d. length d = 48) ds))\<rparr>)"
proof (induction ds arbitrary: p)
  case Nil
  then show ?case by simp
next
  case (Cons d ds)
  show ?case
  proof (cases "length d = 48")
    case False
    then have "on_notify e p d = Inr p" by (rule on_notify_ignores)
    with Cons.prems have "stream_frames e p (d # ds) = stream_frames e p ds" by simp
    with Cons.IH [OF Cons.prems] False show ?thesis by simp
  next
    case True
    let ?now = "wall_clock e (clock_reads p)"
    let ?vals = "unpack_floats (widen e) d"
    let ?p1 = "p\<lparr>clock_reads := Suc (clock_reads p),
            bridge := (bridge p)\<lparr>
              raw_chan := sent (RawMsg ?now ?vals) (raw_chan (bridge p)),
              scalar_chans := scalars_logged ?now 0 ?vals (scalar_chans (bridge p))\<rparr>\<rparr>"
    have lv: "length ?vals = N_CH"
      using True by (simp add: length_unpack_floats N_CH_def)
    have "on_notify e p d = log_frame e p ?vals"
      using True by (rule on_notify_frame)
    also have "\<dots> = Inr ?p1"
      by (rule log_frame_sent [OF healthy]) (simp add: lv Cons.prems)
    finally have step: "stream_frames e p (d # ds) = stream_frames e ?p1 ds"
      using Cons.prems by simp
    have sub1: "subscribed ?p1" using Cons.prems by simp
    have len1: "length (scalar_chans (bridge ?p1)) = N_CH" using Cons.prems by simp
    from Cons.IH [OF sub1 len1] obtain p' where
      r: "stream_frames e ?p1 ds = Inr p'"
      and c: "clock_reads p' = clock_reads ?p1 + length (filter (\<lambda>d. length d = 48) ds)"
      and s: "subscribed p'" "calls p' = calls ?p1"
        "server_running (bridge p') = server_running (bridge ?p1)"
      and raw: "raw_chan (bridge p') = (raw_chan (bridge ?p1))\<lparr>published :=
        published (raw_chan (bridge ?p1)) @
        map (\<lambda>(k, d). RawMsg (wall_clock e k) (unpack_floats (widen e) d))
          (enumerate (clock_reads ?p1) (filter (\<lambda>d. length d = 48) ds))\<rparr>"
      and l: "length (scalar_chans (bridge p')) = N_CH"
      and sc: "\<forall>i < N_CH. scalar_chans (bridge p') ! i = (scalar_chans (bridge ?p1) ! i)\<lparr>published :=
        published (scalar_chans (bridge ?p1) ! i) @
        map (\<lambda>(k, d). ScalarMsg (wall_clock e k) (unpack_floats (widen e) d ! i))
          (enumerate (clock_reads ?p1) (filter (\<lambda>d. length d = 48) ds))\<rparr>"
      by blast
    have raw': "raw_chan (bridge p') = (raw_chan (bridge p))\<lparr>published :=
        published (raw_chan (bridge p)) @
        map (\<lambda>(k, d). RawMsg (wall_clock e k) (unpack_floats (widen e) d))
          (enumerate (clock_reads p) (filter (\<lambda>d. length d = 48) (d # ds)))\<rparr>"
      using raw True by (simp add: sent_def)
    have sc': "\<forall>i < N_CH. scalar_chans (bridge p') ! i = (scalar_chans (bridge p) ! i)\<lparr>published :=
        published (scalar_chans (bridge p) ! i) @
        map (\<lambda>(k, d). ScalarMsg (wall_clock e k) (unpack_floats (widen e) d ! i))
          (enumerate (clock_reads p) (filter (\<lambda>d. length d = 48) (d # ds)))\<rparr>"
    proof (intro allI impI)
      fix i assume i: "i < N_CH"
      have "scalar_chans (bridge ?p1) ! i =
          sent (ScalarMsg ?now (?vals ! i)) (scalar_chans (bridge p) ! i)"
        using i lv Cons.prems by (simp add: nth_scalars_logged)
      with sc i True show "scalar_chans (bridge p') ! i = (scalar_chans (bridge p) ! i)\<lparr>published :=
        published (scalar_chans (bridge p) ! i) @
        map (\<lambda>(k, d). ScalarMsg (wall_clock e k) (unpack_floats (widen e) d ! i))
          (enumerate (clock_reads p) (filter (\<lambda>d. length d = 48) (d # ds)))\<rparr>"
        by (simp add: sent_def)
    qed
    from step r c s l True have "stream_frames e p (d # ds) = Inr p' \<and>
      clock_reads p' = clock_reads p + length (filter (\<lambda>d. length d = 48) (d # ds)) \<and>
      subscribed p' \<and> calls p' = calls p \<and>
      server_running (bridge p') = server_running (bridge p) \<and>
      length (scalar_chans (bridge p')) = N_CH"
      by simp
    with raw' sc' show ?thesis by blast
  qed
qed

section \<open>Facts about the collector\<close>

lemma collect_frames_valid:
  "subscribed p \<Longrightarrow> \<forall>d \<in> set ds. length d = 48 \<Longrightarrow>
   collect_frames e p ds =
     Inr (p\<lparr>clock_reads := clock_reads p + length ds,
            collector := (collector p)\<lparr>rows := rows (collector p) @
              map (\<lambda>(k, d). (fsub e (wall_clock e k) (t0 (collector p)), unpack_floats (widen e) d))
                (enumerate (clock_reads p) ds)\<rparr>\<rparr>)"
proof (induction ds arbitrary: p)
  case Nil
  then show ?case by simp
next
  case (Cons d ds)
  let ?p' = "p\<lparr>clock_reads := Suc (clock_reads p),
            collector := (collector p)\<lparr>rows := rows (collector p) @
              [(fsub e (wall_clock e (clock_reads p)) (t0 (collector p)),
                unpack_floats (widen e) d)]\<rparr>\<rparr>"
  from Cons.prems have cb: "callback e p d = Inr ?p'"
    by (simp add: callback_frame)
  have sub: "subscribed ?p'" using Cons.prems by simp
  from Cons.prems have "\<forall>d \<in> set ds. length d = 48" by simp
  from Cons.IH [OF sub this] cb Cons.prems(1) show ?case
    by simp
qed

lemma length_new_bridge_chans: "length (scalar_chans new_bridge) = N_CH"
  by (simp add: new_bridge_def)

lemma new_bridge_chan:
  "i < N_CH \<Longrightarrow>
   scalar_chans new_bridge ! i = \<lparr>topic = ''/load_cells/ch'' @ str_nat (i + 1), published = []\<rparr>"
  by (simp add: new_bridge_def)

lemma stream_subscribed_simps:
  "subscribed (stream_subscribed k)" "clock_reads (stream_subscribed k) = k"
  "calls (stream_subscribed k) = [StartNotify]" "bridge (stream_subscribed k) = new_bridge"
  by (simp_all add: stream_subscribed_def)

section \<open>One frame, one timestamp\<close>

text \<open>
  Claim C10. \<open>log_frame\<close> reads the clock exactly once for a frame; the aggregated
  message on \<open>/load_cells/raw\<close> and the twelve scalar messages all carry that reading as
  their timestamp, and the scalar channel at position \<open>i\<close> (topic \<open>/load_cells/ch\<close>
  followed by \<open>i + 1\<close>) is sent exactly the \<open>i\<close>-th value of the frame.
\<close>

theorem log_frame_one_timestamp:
  assumes "chan_log e = publish" and "length vals = N_CH"
    and "length (scalar_chans (bridge p)) = N_CH"
  shows "\<exists>p'. log_frame e p vals = Inr p' \<and>
      clock_reads p' = Suc (clock_reads p) \<and>
      published (raw_chan (bridge p')) =
        published (raw_chan (bridge p)) @ [RawMsg (wall_clock e (clock_reads p)) vals] \<and>
      length (scalar_chans (bridge p')) = N_CH \<and>
      (\<forall>i < N_CH.
         topic (scalar_chans (bridge p') ! i) = topic (scalar_chans (bridge p) ! i) \<and>
         published (scalar_chans (bridge p') ! i) =
           published (scalar_chans (bridge p) ! i) @
             [ScalarMsg (wall_clock e (clock_reads p)) (vals ! i)])"
proof -
  from assms have "length vals \<le> length (scalar_chans (bridge p))" by simp
  from log_frame_sent [OF assms(1) this] assms(2,3) show ?thesis
    by (simp add: nth_scalars_logged sent_def)
qed

theorem log_frame_one_timestamp_witness:
  "\<exists>p'. log_frame (recording_env (\<lambda>k. 7)) (stream_subscribed 0)
           (unpack_floats (\<lambda>w. w) ramp_frame) = Inr p' \<and>
      clock_reads p' = 1 \<and>
      published (raw_chan (bridge p')) = [RawMsg 7 (unpack_floats (\<lambda>w. w) ramp_frame)] \<and>
      topic (scalar_chans (bridge p') ! 0) = ''/load_cells/ch1'' \<and>
      published (scalar_chans (bridge p') ! 0) = [ScalarMsg 7 50462976] \<and>
      topic (scalar_chans (bridge p') ! 11) = ''/load_cells/ch12'' \<and>
      published (scalar_chans (bridge p') ! 11) = [ScalarMsg 7 791555372]"
proof -
  let ?e = "recording_env (\<lambda>k. 7)"
  let ?p = "stream_subscribed 0 :: (32 word) stream_proc"
  let ?vals = "unpack_floats (\<lambda>w. w) ramp_frame"
  have h: "chan_log ?e = publish" by (simp add: recording_env_def)
  have lv: "length ?vals = N_CH"
    by (simp add: length_unpack_floats ramp_frame_def N_CH_def)
  have lc: "length (scalar_chans (bridge ?p)) = N_CH"
    by (simp add: stream_subscribed_simps length_new_bridge_chans)
  have v0: "?vals ! 0 = 50462976" and v11: "?vals ! 11 = 791555372"
    by (simp_all add: nth_unpack_floats ramp_frame_def le32_def)
  have t0: "str_nat (Suc 0) = ''1''" and t11: "str_nat 12 = ''12''"
    by code_simp+
  from log_frame_one_timestamp [OF h lv lc] obtain p' where
    r: "log_frame ?e ?p ?vals = Inr p' \<and>
      clock_reads p' = Suc (clock_reads ?p) \<and>
      published (raw_chan (bridge p')) =
        published (raw_chan (bridge ?p)) @
          [RawMsg (wall_clock ?e (clock_reads ?p)) ?vals] \<and>
      length (scalar_chans (bridge p')) = N_CH \<and>
      (\<forall>i < N_CH.
         topic (scalar_chans (bridge p') ! i) =
           topic (scalar_chans (bridge ?p) ! i) \<and>
         published (scalar_chans (bridge p') ! i) =
           published (scalar_chans (bridge ?p) ! i) @
             [ScalarMsg (wall_clock ?e (clock_reads ?p)) (?vals ! i)])" ..
  then have "log_frame ?e ?p ?vals = Inr p' \<and>
      clock_reads p' = 1 \<and>
      published (raw_chan (bridge p')) = [RawMsg 7 ?vals] \<and>
      topic (scalar_chans (bridge p') ! 0) = ''/load_cells/ch1'' \<and>
      published (scalar_chans (bridge p') ! 0) = [ScalarMsg 7 50462976] \<and>
      topic (scalar_chans (bridge p') ! 11) = ''/load_cells/ch12'' \<and>
      published (scalar_chans (bridge p') ! 11) = [ScalarMsg 7 791555372]"
    by (simp add: stream_subscribed_simps new_bridge_chan N_CH_def v0 v11 t0 t11
        recording_env_def new_bridge_def)
  then show ?thesis ..
qed

section \<open>Auxiliary facts\<close>

lemma map_enumerate_index:
  "map (\<lambda>(k, d). g k) (enumerate n xs) = map g [n..<n + length xs]"
proof -
  have "map (\<lambda>(k, d). g k) (enumerate n xs) = map (g \<circ> fst) (enumerate n xs)"
    by (simp add: case_prod_unfold comp_def)
  also have "\<dots> = map g (map fst (enumerate n xs))"
    by (simp only: map_map)
  finally show ?thesis by (simp only: map_fst_enumerate)
qed

lemma map_enumerate_item:
  "map (\<lambda>(k, d). h d) (enumerate n xs) = map h xs"
proof -
  have "map (\<lambda>(k, d). h d) (enumerate n xs) = map (h \<circ> snd) (enumerate n xs)"
    by (simp add: case_prod_unfold comp_def)
  also have "\<dots> = map h (map snd (enumerate n xs))"
    by (simp only: map_map)
  finally show ?thesis by (simp only: map_snd_enumerate)
qed

lemma sorted_map_upt:
  "(\<forall>i j. i \<le> j \<longrightarrow> f i \<le> (f j :: real)) \<Longrightarrow> sorted (map f [a..<b])"
proof -
  assume m: "\<forall>i j. i \<le> j \<longrightarrow> f i \<le> f j"
  have "sorted_wrt (\<le>) [a..<b]" by simp
  then have "sorted_wrt (\<lambda>x y. f x \<le> f y) [a..<b]"
    by (rule sorted_wrt_mono_rel [rotated]) (use m in blast)
  then show ?thesis by (simp add: sorted_map)
qed

lemma strict_sorted_map_upt:
  "(\<forall>i j. i < j \<longrightarrow> f i < (f j :: real)) \<Longrightarrow> sorted_wrt (<) (map f [a..<b])"
proof -
  assume m: "\<forall>i j. i < j \<longrightarrow> f i < f j"
  have "sorted_wrt (<) [a..<b]" by simp
  then have "sorted_wrt (\<lambda>x y. f x < f y) [a..<b]"
    by (rule sorted_wrt_mono_rel [rotated]) (use m in blast)
  then show ?thesis by (simp add: sorted_wrt_map)
qed

lemma unpack_zero_frame: "unpack_floats (\<lambda>w. w) zero_frame = replicate 12 0"
  by code_simp

lemma unpack_ramp_frame:
  "unpack_floats (\<lambda>w. w) ramp_frame =
     [50462976, 117835012, 185207048, 252579084, 319951120, 387323156,
      454695192, 522067228, 589439264, 656811300, 724183336, 791555372]"
  by code_simp

lemma frame_lengths:
  "length zero_frame = 48" "length ramp_frame = 48" "length short_frame = 40"
  by (simp_all add: zero_frame_def ramp_frame_def short_frame_def)

lemma main_subscribed_simps:
  "subscribed (main_subscribed e k)" "clock_reads (main_subscribed e k) = Suc k"
  "calls (main_subscribed e k) = [StartNotify]"
  "rows (collector (main_subscribed e k)) = []"
  "t0 (collector (main_subscribed e k)) = wall_clock e k"
  "out_csv (main_subscribed e k) = None"
  "plot_lines (main_subscribed e k) = replicate 3 ([], [])"
  by (simp_all add: main_subscribed_def)

lemma recording_env_simps:
  "widen (recording_env c) = (\<lambda>w. w)" "wall_clock (recording_env c) = c"
  "fsub (recording_env c) = (\<lambda>a b. a - b)" "chan_log (recording_env c) = publish"
  by (simp_all add: recording_env_def)

section \<open>Order of delivery\<close>



section \<open>Timestamps\<close>

text \<open>
  Claim C2, as stated, fails: the timestamp is the reading of the wall clock, so when the
  clock is set back between two frames the later row and the later message carry the
  earlier time (10, then 5).
\<close>

theorem wall_clock_regression_counterexample:
  "map_sum (\<lambda>x. x) (\<lambda>q. map fst (rows (collector q)))
     (collect_frames (recording_env regressing_clock)
        (main_subscribed (recording_env regressing_clock) 0) [zero_frame, zero_frame])
     = Inr [10, 5] \<and>
   map_sum (\<lambda>x. x) (\<lambda>p. map msg_t (published (raw_chan (bridge p))))
     (stream_frames (recording_env regressing_clock) (stream_subscribed 1)
        [zero_frame, zero_frame])
     = Inr [10, 5]"
proof -
  let ?e = "recording_env regressing_clock"
  have v: "\<forall>d \<in> set [zero_frame, zero_frame]. length d = 48"
    by (simp add: frame_lengths)
  have "subscribed (main_subscribed ?e 0)" by (simp add: main_subscribed_simps)
  from collect_frames_valid [OF this v, of ?e]
  have a: "map_sum (\<lambda>x. x) (\<lambda>q. map fst (rows (collector q)))
     (collect_frames ?e (main_subscribed ?e 0) [zero_frame, zero_frame]) = Inr [10, 5]"
    by (simp add: main_subscribed_simps recording_env_simps regressing_clock_def)
  let ?p = "stream_subscribed 1 :: (32 word) stream_proc"
  have "chan_log ?e = publish" "subscribed ?p" "length (scalar_chans (bridge ?p)) = N_CH"
    by (simp_all add: recording_env_simps stream_subscribed_simps length_new_bridge_chans)
  from stream_frames_published [OF this, of "[zero_frame, zero_frame]"]
  obtain p' where "stream_frames ?e ?p [zero_frame, zero_frame] = Inr p'"
    and "raw_chan (bridge p') = (raw_chan (bridge ?p))\<lparr>published :=
        published (raw_chan (bridge ?p)) @
        map (\<lambda>(k, d). RawMsg (wall_clock ?e k) (unpack_floats (widen ?e) d))
          (enumerate (clock_reads ?p) (filter (\<lambda>d. length d = 48) [zero_frame, zero_frame]))\<rparr>"
    by blast
  then have b: "map_sum (\<lambda>x. x) (\<lambda>p. map msg_t (published (raw_chan (bridge p))))
     (stream_frames ?e ?p [zero_frame, zero_frame]) = Inr [10, 5]"
    by (simp add: frame_lengths stream_subscribed_simps recording_env_simps
        regressing_clock_def new_bridge_def)
  from a b show ?thesis ..
qed

text \<open>
  Claim C2, amended. The timestamp of a sample is a reading of the wall clock
  \<open>time.time()\<close>: the reading itself in \<open>log_frame\<close>, the float difference of the reading
  and \<open>t0\<close> in the collector. Whenever successive readings of the wall clock are
  non-decreasing, the timestamps of consecutive samples are non-decreasing too (for the
  rows because the subtraction of floats, which rounds, is monotone in its first
  operand). Nothing more is promised: a clock that is set back shows in the timestamps,
  and rows whose readings differ may carry equal timestamps.
\<close>

theorem timestamps_follow_wall_clock:
  assumes "chan_log e = publish" and "\<forall>d \<in> set cs. length d = 48"
  shows "\<exists>p' q'. stream_frames e (stream_subscribed k) ds = Inr p' \<and>
      collect_frames e (main_subscribed e k) cs = Inr q' \<and>
      map msg_t (published (raw_chan (bridge p'))) =
        map (wall_clock e) [k..<k + length (filter (\<lambda>d. length d = 48) ds)] \<and>
      map fst (rows (collector q')) =
        map (\<lambda>j. fsub e (wall_clock e j) (wall_clock e k)) [Suc k..<Suc k + length cs] \<and>
      ((\<forall>i j. i \<le> j \<longrightarrow> wall_clock e i \<le> wall_clock e j) \<longrightarrow>
         sorted (map msg_t (published (raw_chan (bridge p')))) \<and>
         ((\<forall>a b c. a \<le> b \<longrightarrow> fsub e a c \<le> fsub e b c) \<longrightarrow>
            sorted (map fst (rows (collector q')))))"
proof -
  let ?p = "stream_subscribed k :: 'a stream_proc"
  let ?q = "main_subscribed e k"
  let ?ok = "filter (\<lambda>d. length d = 48) ds"
  have "subscribed ?p" "length (scalar_chans (bridge ?p)) = N_CH"
    by (simp_all add: stream_subscribed_simps length_new_bridge_chans)
  from stream_frames_published [OF assms(1) this, of ds]
  obtain p' where sf: "stream_frames e ?p ds = Inr p'"
    and raw: "raw_chan (bridge p') = (raw_chan (bridge ?p))\<lparr>published :=
        published (raw_chan (bridge ?p)) @
        map (\<lambda>(k, d). RawMsg (wall_clock e k) (unpack_floats (widen e) d))
          (enumerate (clock_reads ?p) ?ok)\<rparr>"
    by blast
  have "map msg_t (map (\<lambda>(k, d). RawMsg (wall_clock e k) (unpack_floats (widen e) d))
          (enumerate k ?ok)) = map (\<lambda>(j, d). wall_clock e j) (enumerate k ?ok)"
    by (simp add: case_prod_unfold)
  with raw have ts: "map msg_t (published (raw_chan (bridge p'))) =
      map (wall_clock e) [k..<k + length ?ok]"
    by (simp add: stream_subscribed_simps new_bridge_def map_enumerate_index)
  have "subscribed ?q" by (simp add: main_subscribed_simps)
  from collect_frames_valid [OF this assms(2), of e]
  obtain q' where cf: "collect_frames e ?q cs = Inr q'"
    and rw: "rows (collector q') = rows (collector ?q) @
        map (\<lambda>(j, d). (fsub e (wall_clock e j) (t0 (collector ?q)), unpack_floats (widen e) d))
          (enumerate (clock_reads ?q) cs)"
    by simp
  have "map fst (map (\<lambda>(j, d). (fsub e (wall_clock e j) (wall_clock e k),
            unpack_floats (widen e) d)) (enumerate (Suc k) cs)) =
        map (\<lambda>(j, d). fsub e (wall_clock e j) (wall_clock e k)) (enumerate (Suc k) cs)"
    by (simp add: case_prod_unfold)
  with rw have tr: "map fst (rows (collector q')) =
        map (\<lambda>j. fsub e (wall_clock e j) (wall_clock e k)) [Suc k..<Suc k + length cs]"
    by (simp add: main_subscribed_simps map_enumerate_index)
  have mono: "(\<forall>i j. i \<le> j \<longrightarrow> wall_clock e i \<le> wall_clock e j) \<longrightarrow>
         sorted (map msg_t (published (raw_chan (bridge p')))) \<and>
         ((\<forall>a b c. a \<le> b \<longrightarrow> fsub e a c \<le> fsub e b c) \<longrightarrow>
            sorted (map fst (rows (collector q'))))"
  proof (intro impI conjI)
    assume m: "\<forall>i j. i \<le> j \<longrightarrow> wall_clock e i \<le> wall_clock e j"
    then have "sorted (map (wall_clock e) [k..<k + length ?ok])"
      by (rule sorted_map_upt)
    then show "sorted (map msg_t (published (raw_chan (bridge p'))))"
      by (simp only: ts)
    assume f: "\<forall>a b c. a \<le> b \<longrightarrow> fsub e a c \<le> fsub e b c"
    have "\<forall>i j. i \<le> j \<longrightarrow>
        fsub e (wall_clock e i) (wall_clock e k) \<le> fsub e (wall_clock e j) (wall_clock e k)"
      using m f by blast
    then have "sorted (map (\<lambda>j. fsub e (wall_clock e j) (wall_clock e k))
        [Suc k..<Suc k + length cs])"
      by (rule sorted_map_upt)
    then show "sorted (map fst (rows (collector q')))"
      by (simp only: tr)
  qed
  from sf cf ts tr mono show ?thesis
    by (intro exI [of _ p'] exI [of _ q'] conjI)
qed

theorem timestamps_follow_wall_clock_witness:
  "\<exists>p' q'. stream_frames (recording_env real) (stream_subscribed 0)
               [zero_frame, short_frame, zero_frame] = Inr p' \<and>
      collect_frames (recording_env real) (main_subscribed (recording_env real) 0)
               [zero_frame, zero_frame] = Inr q' \<and>
      map msg_t (published (raw_chan (bridge p'))) = [0, 1] \<and>
      map fst (rows (collector q')) = [1, 2] \<and>
      sorted (map msg_t (published (raw_chan (bridge p')))) \<and>
      sorted (map fst (rows (collector q')))"
proof -
  let ?e = "recording_env real"
  let ?ds = "[zero_frame, short_frame, zero_frame]"
  let ?cs = "[zero_frame, zero_frame]"
  have h: "chan_log ?e = publish" by (simp add: recording_env_simps)
  have v: "\<forall>d \<in> set ?cs. length d = 48" by (simp add: frame_lengths)
  have m: "\<forall>i j. i \<le> j \<longrightarrow> wall_clock ?e i \<le> wall_clock ?e j"
    by (simp add: recording_env_simps)
  have f: "\<forall>a b c. a \<le> b \<longrightarrow> fsub ?e a c \<le> fsub ?e b c"
    by (simp add: recording_env_simps)
  from timestamps_follow_wall_clock [OF h v, of 0 ?ds]
  obtain p' :: "(32 word) stream_proc" where
    "\<exists>q'. stream_frames ?e (stream_subscribed 0) ?ds = Inr p' \<and>
      collect_frames ?e (main_subscribed ?e 0) ?cs = Inr q' \<and>
      map msg_t (published (raw_chan (bridge p'))) =
        map (wall_clock ?e) [0..<0 + length (filter (\<lambda>d. length d = 48) ?ds)] \<and>
      map fst (rows (collector q')) =
        map (\<lambda>j. fsub ?e (wall_clock ?e j) (wall_clock ?e 0)) [Suc 0..<Suc 0 + length ?cs] \<and>
      ((\<forall>i j. i \<le> j \<longrightarrow> wall_clock ?e i \<le> wall_clock ?e j) \<longrightarrow>
         sorted (map msg_t (published (raw_chan (bridge p')))) \<and>
         ((\<forall>a b c. a \<le> b \<longrightarrow> fsub ?e a c \<le> fsub ?e b c) \<longrightarrow>
            sorted (map fst (rows (collector q')))))" ..
  then obtain q' where
    r: "stream_frames ?e (stream_subscribed 0) ?ds = Inr p' \<and>
      collect_frames ?e (main_subscribed ?e 0) ?cs = Inr q' \<and>
      map msg_t (published (raw_chan (bridge p'))) =
        map (wall_clock ?e) [0..<0 + length (filter (\<lambda>d. length d = 48) ?ds)] \<and>
      map fst (rows (collector q')) =
        map (\<lambda>j. fsub ?e (wall_clock ?e j) (wall_clock ?e 0)) [Suc 0..<Suc 0 + length ?cs] \<and>
      ((\<forall>i j. i \<le> j \<longrightarrow> wall_clock ?e i \<le> wall_clock ?e j) \<longrightarrow>
         sorted (map msg_t (published (raw_chan (bridge p')))) \<and>
         ((\<forall>a b c. a \<le> b \<longrightarrow> fsub ?e a c \<le> fsub ?e b c) \<longrightarrow>
            sorted (map fst (rows (collector q')))))" ..
  note sf = r [THEN conjunct1]
  note cf = r [THEN conjunct2, THEN conjunct1]
  note ts = r [THEN conjunct2, THEN conjunct2, THEN conjunct1]
  note tr = r [THEN conjunct2, THEN conjunct2, THEN conjunct2, THEN conjunct1]
  note mono = r [THEN conjunct2, THEN conjunct2, THEN conjunct2, THEN conjunct2]
  from ts have ts': "map msg_t (published (raw_chan (bridge p'))) = [0, 1]"
    by (simp add: frame_lengths recording_env_simps upt_rec)
  from tr have tr': "map fst (rows (collector q')) = [1, 2]"
    by (simp add: recording_env_simps upt_rec)
  from mono m have both: "sorted (map msg_t (published (raw_chan (bridge p')))) \<and>
         ((\<forall>a b c. a \<le> b \<longrightarrow> fsub ?e a c \<le> fsub ?e b c) \<longrightarrow>
            sorted (map fst (rows (collector q'))))"
    by (rule mp)
  then have so: "sorted (map msg_t (published (raw_chan (bridge p'))))"
    by (rule conjunct1)
  from both [THEN conjunct2] f have st: "sorted (map fst (rows (collector q')))"
    by (rule mp)
  from sf cf ts' tr' so st show ?thesis
    by (intro exI conjI)
qed

section \<open>Buffering in the collector\<close>

text \<open>
  Claim C3, as stated, fails: the collector has no capacity. With \<open>K = 1\<close> and \<open>M = 1\<close>,
  after \<open>K + M\<close> frames that nothing has consumed the buffer holds two rows, not \<open>K\<close>.
\<close>

theorem unbounded_rows_counterexample:
  "map_sum (\<lambda>x. x) (\<lambda>q. length (rows (collector q)))
     (collect_frames (recording_env real) (main_subscribed (recording_env real) 0)
        (replicate (1 + 1) zero_frame)) = Inr 2"
proof -
  let ?e = "recording_env real"
  have v: "\<forall>d \<in> set (replicate (1 + 1) zero_frame). length d = 48"
    by (simp add: frame_lengths)
  have "subscribed (main_subscribed ?e 0)" by (simp add: main_subscribed_simps)
  from collect_frames_valid [OF this v, of ?e] show ?thesis
    by (simp add: main_subscribed_simps)
qed

text \<open>
  Claim C3, amended. \<open>BLECollector\<close> keeps every sample: after \<open>n\<close> frames of the right
  size its list of rows has grown by exactly \<open>n\<close>, holding the decoded values of all of
  them in arrival order; nothing is dropped and nothing bounds the list.
\<close>

theorem rows_keep_every_sample:
  assumes "subscribed q" and "\<forall>d \<in> set ds. length d = 48"
  shows "\<exists>q'. collect_frames e q ds = Inr q' \<and>
      length (rows (collector q')) = length (rows (collector q)) + length ds \<and>
      map snd (rows (collector q')) =
        map snd (rows (collector q)) @ map (unpack_floats (widen e)) ds"
proof -
  have "map snd (map (\<lambda>(k, d). (fsub e (wall_clock e k) (t0 (collector q)), unpack_floats (widen e) d))
          (enumerate (clock_reads q) ds)) =
        map (\<lambda>(k, d). unpack_floats (widen e) d) (enumerate (clock_reads q) ds)"
    by (simp add: case_prod_unfold)
  with collect_frames_valid [OF assms, of e] show ?thesis
    by (simp add: map_enumerate_item)
qed

theorem rows_keep_every_sample_witness:
  "\<exists>q'. collect_frames (recording_env real) (main_subscribed (recording_env real) 0)
          [ramp_frame, zero_frame, ramp_frame] = Inr q' \<and>
      length (rows (collector q')) = 3 \<and>
      map snd (rows (collector q')) =
        [unpack_floats (\<lambda>w. w) ramp_frame, replicate 12 0, unpack_floats (\<lambda>w. w) ramp_frame]"
proof -
  let ?e = "recording_env real"
  have s: "subscribed (main_subscribed ?e 0)" by (simp add: main_subscribed_simps)
  have v: "\<forall>d \<in> set [ramp_frame, zero_frame, ramp_frame]. length d = 48"
    by (simp add: frame_lengths)
  from rows_keep_every_sample [OF s v, of ?e] obtain q' where
    "collect_frames ?e (main_subscribed ?e 0) [ramp_frame, zero_frame, ramp_frame] = Inr q'"
    "length (rows (collector q')) =
       length (rows (collector (main_subscribed ?e 0))) + length [ramp_frame, zero_frame, ramp_frame]"
    "map snd (rows (collector q')) = map snd (rows (collector (main_subscribed ?e 0))) @
       map (unpack_floats (widen ?e)) [ramp_frame, zero_frame, ramp_frame]"
    by blast
  then have "collect_frames ?e (main_subscribed ?e 0) [ramp_frame, zero_frame, ramp_frame] = Inr q' \<and>
      length (rows (collector q')) = 3 \<and>
      map snd (rows (collector q')) =
        [unpack_floats (\<lambda>w. w) ramp_frame, replicate 12 0, unpack_floats (\<lambda>w. w) ramp_frame]"
    by (simp add: main_subscribed_simps recording_env_simps unpack_zero_frame)
  then show ?thesis ..
qed

section \<open>A malformed frame between two valid ones\<close>

lemma stream_frames_unsubscribed: "\<not> subscribed p \<Longrightarrow> stream_frames e p ds = Inr p"
  by (cases ds) simp_all

lemma collect_frames_unsubscribed: "\<not> subscribed p \<Longrightarrow> collect_frames e p ds = Inr p"
  by (cases ds) simp_all

lemma stream_frames_skip:
  "length bad \<noteq> 48 \<Longrightarrow> stream_frames e p (bad # ds) = stream_frames e p ds"
  by (cases "subscribed p") (simp_all add: on_notify_ignores stream_frames_unsubscribed)

text \<open>
  Claim C7, as stated, fails: no decode-error counter exists. A run in which a 40-byte
  buffer arrives between two valid frames ends in exactly the state of the run without
  it, so nothing the program keeps has counted the malformed frame.
\<close>

theorem no_decode_error_counter_counterexample:
  "stream_frames (recording_env real) (stream_subscribed 0)
     [zero_frame, short_frame, zero_frame] =
   stream_frames (recording_env real) (stream_subscribed 0 :: (32 word) stream_proc)
     [zero_frame, zero_frame]"
proof -
  have "length short_frame \<noteq> 48" by (simp add: frame_lengths)
  then have "\<And>p :: (32 word) stream_proc.
      stream_frames (recording_env real) p [short_frame, zero_frame] =
      stream_frames (recording_env real) p [zero_frame]"
    by (rule stream_frames_skip)
  then show ?thesis
    by (simp only: stream_frames.simps)
qed

text \<open>
  Claim C7, amended. When a buffer of the wrong size arrives between two valid frames,
  \<open>on_notify\<close> drops it without a trace (the run ends in the state it would have without
  that buffer; no counter is kept), and both valid frames are decoded and logged on the
  aggregated channel and on each of the twelve scalar channels.
\<close>

theorem malformed_frame_between_valid:
  assumes "chan_log e = publish" and "subscribed p"
    and "length (scalar_chans (bridge p)) = N_CH"
    and "length v1 = 48" and "length v2 = 48" and "length bad \<noteq> 48"
  shows "stream_frames e p [v1, bad, v2] = stream_frames e p [v1, v2] \<and>
    (\<exists>p'. stream_frames e p [v1, bad, v2] = Inr p' \<and>
      published (raw_chan (bridge p')) = published (raw_chan (bridge p)) @
        [RawMsg (wall_clock e (clock_reads p)) (unpack_floats (widen e) v1),
         RawMsg (wall_clock e (Suc (clock_reads p))) (unpack_floats (widen e) v2)] \<and>
      (\<forall>i < N_CH. published (scalar_chans (bridge p') ! i) =
        published (scalar_chans (bridge p) ! i) @
        [ScalarMsg (wall_clock e (clock_reads p)) (unpack_floats (widen e) v1 ! i),
         ScalarMsg (wall_clock e (Suc (clock_reads p))) (unpack_floats (widen e) v2 ! i)]))"
proof
  from assms(6) have "\<And>p'. stream_frames e p' [bad, v2] = stream_frames e p' [v2]"
    by (rule stream_frames_skip)
  then show "stream_frames e p [v1, bad, v2] = stream_frames e p [v1, v2]"
    by (simp only: stream_frames.simps)
next
  let ?ok = "filter (\<lambda>d. length d = 48) [v1, bad, v2]"
  have ok: "?ok = [v1, v2]" using assms(4-6) by simp
  from stream_frames_published [OF assms(1-3), of "[v1, bad, v2]"] obtain p' where
    sf: "stream_frames e p [v1, bad, v2] = Inr p'"
    and raw: "raw_chan (bridge p') = (raw_chan (bridge p))\<lparr>published :=
        published (raw_chan (bridge p)) @
        map (\<lambda>(k, d). RawMsg (wall_clock e k) (unpack_floats (widen e) d))
          (enumerate (clock_reads p) ?ok)\<rparr>"
    and sc: "\<forall>i < N_CH. scalar_chans (bridge p') ! i = (scalar_chans (bridge p) ! i)\<lparr>published :=
        published (scalar_chans (bridge p) ! i) @
        map (\<lambda>(k, d). ScalarMsg (wall_clock e k) (unpack_floats (widen e) d ! i))
          (enumerate (clock_reads p) ?ok)\<rparr>"
    by blast
  from raw [unfolded ok] have raw': "published (raw_chan (bridge p')) = published (raw_chan (bridge p)) @
        [RawMsg (wall_clock e (clock_reads p)) (unpack_floats (widen e) v1),
         RawMsg (wall_clock e (Suc (clock_reads p))) (unpack_floats (widen e) v2)]"
    by simp
  from sc [unfolded ok] have sc': "\<forall>i < N_CH. published (scalar_chans (bridge p') ! i) =
        published (scalar_chans (bridge p) ! i) @
        [ScalarMsg (wall_clock e (clock_reads p)) (unpack_floats (widen e) v1 ! i),
         ScalarMsg (wall_clock e (Suc (clock_reads p))) (unpack_floats (widen e) v2 ! i)]"
    by simp
  from sf raw' sc'
  show "\<exists>p'. stream_frames e p [v1, bad, v2] = Inr p' \<and>
      published (raw_chan (bridge p')) = published (raw_chan (bridge p)) @
        [RawMsg (wall_clock e (clock_reads p)) (unpack_floats (widen e) v1),
         RawMsg (wall_clock e (Suc (clock_reads p))) (unpack_floats (widen e) v2)] \<and>
      (\<forall>i < N_CH. published (scalar_chans (bridge p') ! i) =
        published (scalar_chans (bridge p) ! i) @
        [ScalarMsg (wall_clock e (clock_reads p)) (unpack_floats (widen e) v1 ! i),
         ScalarMsg (wall_clock e (Suc (clock_reads p))) (unpack_floats (widen e) v2 ! i)])"
    by (intro exI conjI)
qed

theorem malformed_frame_between_valid_witness:
  "stream_frames (recording_env real) (stream_subscribed 0) [ramp_frame, short_frame, zero_frame] =
     stream_frames (recording_env real) (stream_subscribed 0) [ramp_frame, zero_frame] \<and>
   (\<exists>p'. stream_frames (recording_env real) (stream_subscribed 0)
            [ramp_frame, short_frame, zero_frame] = Inr p' \<and>
      published (raw_chan (bridge p')) =
        [RawMsg 0 (unpack_floats (\<lambda>w. w) ramp_frame), RawMsg 1 (replicate 12 0)] \<and>
      published (scalar_chans (bridge p') ! 0) = [ScalarMsg 0 50462976, ScalarMsg 1 0])"
proof -
  let ?e = "recording_env real"
  let ?p = "stream_subscribed 0 :: (32 word) stream_proc"
  have h: "chan_log ?e = publish" by (simp add: recording_env_simps)
  have sp: "subscribed ?p" by (simp add: stream_subscribed_simps)
  have lc: "length (scalar_chans (bridge ?p)) = N_CH"
    by (simp add: stream_subscribed_simps length_new_bridge_chans)
  have l1: "length ramp_frame = 48" and l2: "length zero_frame = 48"
    and l3: "length short_frame \<noteq> 48"
    by (simp_all add: frame_lengths)
  have c0: "scalar_chans new_bridge ! 0 =
      \<lparr>topic = ''/load_cells/ch'' @ str_nat (0 + 1), published = []\<rparr>"
    by (rule new_bridge_chan) (simp add: N_CH_def)
  note r = malformed_frame_between_valid [OF h sp lc l1 l2 l3]
  from r [THEN conjunct2] obtain p' where
    q: "stream_frames ?e ?p [ramp_frame, short_frame, zero_frame] = Inr p' \<and>
      published (raw_chan (bridge p')) = published (raw_chan (bridge ?p)) @
        [RawMsg (wall_clock ?e (clock_reads ?p)) (unpack_floats (widen ?e) ramp_frame),
         RawMsg (wall_clock ?e (Suc (clock_reads ?p))) (unpack_floats (widen ?e) zero_frame)] \<and>
      (\<forall>i < N_CH. published (scalar_chans (bridge p') ! i) =
        published (scalar_chans (bridge ?p) ! i) @
        [ScalarMsg (wall_clock ?e (clock_reads ?p)) (unpack_floats (widen ?e) ramp_frame ! i),
         ScalarMsg (wall_clock ?e (Suc (clock_reads ?p))) (unpack_floats (widen ?e) zero_frame ! i)])" ..
  note sf = q [THEN conjunct1]
  from q [THEN conjunct2, THEN conjunct1]
  have raw: "published (raw_chan (bridge p')) =
        [RawMsg 0 (unpack_floats (\<lambda>w. w) ramp_frame), RawMsg 1 (replicate 12 0)]"
    by (simp add: stream_subscribed_simps recording_env_simps unpack_zero_frame new_bridge_def)
  have "0 < N_CH" by (simp add: N_CH_def)
  from q [THEN conjunct2, THEN conjunct2, rule_format, OF this]
  have sc: "published (scalar_chans (bridge p') ! 0) = [ScalarMsg 0 50462976, ScalarMsg 1 0]"
    by (simp add: stream_subscribed_simps recording_env_simps unpack_zero_frame
        unpack_ramp_frame c0)
  from sf raw sc have "\<exists>p'. stream_frames ?e ?p [ramp_frame, short_frame, zero_frame] = Inr p' \<and>
      published (raw_chan (bridge p')) =
        [RawMsg 0 (unpack_floats (\<lambda>w. w) ramp_frame), RawMsg 1 (replicate 12 0)] \<and>
      published (scalar_chans (bridge p') ! 0) = [ScalarMsg 0 50462976, ScalarMsg 1 0]"
    by (intro exI conjI)
  with r [THEN conjunct1] show ?thesis ..
qed

section \<open>Stopping\<close>















section \<open>A channel whose log raises\<close>

lemma log_frame_raises_at:
  assumes fail: "chan_log e = (\<lambda>c msg. if topic c = t then Inl err else publish c msg)"
    and len: "length (scalar_chans (bridge p)) = N_CH"
    and m: "m < N_CH" "m < length vals"
    and bad: "topic (scalar_chans (bridge p) ! m) = t"
    and good: "\<forall>j < m. topic (scalar_chans (bridge p) ! j) \<noteq> t"
    and raw: "topic (raw_chan (bridge p)) \<noteq> t"
  shows "log_frame e p vals =
     Inl (err, p\<lparr>clock_reads := Suc (clock_reads p),
            bridge := (bridge p)\<lparr>
              raw_chan := sent (RawMsg (wall_clock e (clock_reads p)) vals) (raw_chan (bridge p)),
              scalar_chans := scalars_logged (wall_clock e (clock_reads p)) 0 (take m vals)
                                (scalar_chans (bridge p))\<rparr>\<rparr>)"
proof -
  let ?now = "wall_clock e (clock_reads p)"
  let ?p2 = "p\<lparr>clock_reads := Suc (clock_reads p),
               bridge := (bridge p)\<lparr>raw_chan := sent (RawMsg ?now vals) (raw_chan (bridge p))\<rparr>\<rparr>"
  have cs: "scalar_chans (bridge ?p2) = scalar_chans (bridge p)" by simp
  have a: "0 + m < length (scalar_chans (bridge ?p2))" using len m by simp
  have b: "\<forall>j < m. chan_log e (scalar_chans (bridge ?p2) ! (0 + j)) (ScalarMsg ?now (vals ! j)) =
       publish (scalar_chans (bridge ?p2) ! (0 + j)) (ScalarMsg ?now (vals ! j))"
    using good by (simp add: fail)
  have c: "chan_log e (scalar_chans (bridge ?p2) ! (0 + m)) (ScalarMsg ?now (vals ! m)) = Inl err"
    using bad by (simp add: fail)
  have "log_scalars e ?now 0 vals ?p2 =
      Inl (err, ?p2\<lparr>bridge := (bridge ?p2)\<lparr>scalar_chans :=
            scalars_logged ?now 0 (take m vals) (scalar_chans (bridge ?p2))\<rparr>\<rparr>)"
    by (rule log_scalars_raises [OF a m(2) b c])
  moreover have "chan_log e (raw_chan (bridge p)) (RawMsg ?now vals) =
      Inr (sent (RawMsg ?now vals) (raw_chan (bridge p)))"
    using raw by (simp add: fail publish_def sent_def)
  ultimately show ?thesis
    by (simp add: log_frame_def Let_def)
qed

text \<open>
  Claim C8, as stated, fails: \<open>log_frame\<close> writes the channels one after the other with
  nothing around the calls. When \<open>log\<close> raises on \<open>/load_cells/ch3\<close>, the exception leaves
  \<open>on_notify\<close>; the aggregated channel and the first two scalar channels have the frame,
  and the nine channels after the failing one have received nothing.
\<close>

theorem sink_failure_propagates_counterexample:
  "map_sum (\<lambda>(err, p'). (err, map (\<lambda>c. length (published c))
                                  (raw_chan (bridge p') # scalar_chans (bridge p'))))
           (\<lambda>p'. ())
     (on_notify (failing_env ''/load_cells/ch3'' real) (stream_subscribed 0) ramp_frame)
   = Inl (LogError, [1, 1, 1, 0, 0, 0, 0, 0, 0, 0, 0, 0, 0])"
  by code_simp

text \<open>
  Claim C8, amended. \<open>log_frame\<close> has no failure isolation: the channels are written in
  the order raw, ch1, ..., ch12, and when the \<open>log\<close> of one scalar channel raises, the
  exception propagates out of \<open>log_frame\<close> and \<open>on_notify\<close>. The channels written before
  it have received the frame; the failing channel and every channel after it are left as
  they were. No sink is marked as failed: the subscription and the channels stay in
  place, so the next frame is handled the same way.
\<close>

theorem sink_failure_propagates:
  assumes "chan_log e = (\<lambda>c msg. if topic c = t then Inl err else publish c msg)"
    and "length (scalar_chans (bridge p)) = N_CH" and "length data = 48"
    and "m < N_CH"
    and "topic (scalar_chans (bridge p) ! m) = t"
    and "\<forall>j < m. topic (scalar_chans (bridge p) ! j) \<noteq> t"
    and "topic (raw_chan (bridge p)) \<noteq> t"
  shows "\<exists>p'. on_notify e p data = Inl (err, p') \<and>
      subscribed p' = subscribed p \<and>
      published (raw_chan (bridge p')) = published (raw_chan (bridge p)) @
        [RawMsg (wall_clock e (clock_reads p)) (unpack_floats (widen e) data)] \<and>
      (\<forall>j < m. published (scalar_chans (bridge p') ! j) =
        published (scalar_chans (bridge p) ! j) @
        [ScalarMsg (wall_clock e (clock_reads p)) (unpack_floats (widen e) data ! j)]) \<and>
      (\<forall>j < N_CH. m \<le> j \<longrightarrow> scalar_chans (bridge p') ! j = scalar_chans (bridge p) ! j) \<and>
      topic (raw_chan (bridge p')) = topic (raw_chan (bridge p)) \<and>
      length (scalar_chans (bridge p')) = N_CH \<and>
      (\<forall>j < N_CH. topic (scalar_chans (bridge p') ! j) = topic (scalar_chans (bridge p) ! j))"
proof -
  let ?vals = "unpack_floats (widen e) data"
  let ?now = "wall_clock e (clock_reads p)"
  let ?cs = "scalar_chans (bridge p)"
  have lv: "length ?vals = N_CH"
    using assms(3) by (simp add: length_unpack_floats N_CH_def)
  with assms(4) have mv: "m < length ?vals" by simp
  have on: "on_notify e p data = log_frame e p ?vals"
    using assms(3) by (rule on_notify_frame)
  note r = log_frame_raises_at [OF assms(1,2,4) mv assms(5-7)]
  have lt: "0 + length (take m ?vals) \<le> length ?cs"
    using mv assms(2,4) by simp
  have nth: "\<And>j. j < N_CH \<Longrightarrow> scalars_logged ?now 0 (take m ?vals) ?cs ! j =
      (if j < m then sent (ScalarMsg ?now (?vals ! j)) (?cs ! j) else ?cs ! j)"
    using nth_scalars_logged [OF lt, of _ ?now] mv assms(2) by simp
  let ?p' = "p\<lparr>clock_reads := Suc (clock_reads p),
            bridge := (bridge p)\<lparr>
              raw_chan := sent (RawMsg ?now ?vals) (raw_chan (bridge p)),
              scalar_chans := scalars_logged ?now 0 (take m ?vals) ?cs\<rparr>\<rparr>"
  have "on_notify e p data = Inl (err, ?p')"
    unfolding on by (rule r)
  moreover have "subscribed ?p' = subscribed p"
    "published (raw_chan (bridge ?p')) = published (raw_chan (bridge p)) @ [RawMsg ?now ?vals]"
    "topic (raw_chan (bridge ?p')) = topic (raw_chan (bridge p))"
    "length (scalar_chans (bridge ?p')) = N_CH"
    by (simp_all add: sent_def assms(2))
  moreover have "\<forall>j < m. published (scalar_chans (bridge ?p') ! j) =
        published (?cs ! j) @ [ScalarMsg ?now (?vals ! j)]"
    using assms(4) by (simp add: nth sent_def)
  moreover have "\<forall>j < N_CH. m \<le> j \<longrightarrow> scalar_chans (bridge ?p') ! j = ?cs ! j"
    by (simp add: nth)
  moreover have "\<forall>j < N_CH. topic (scalar_chans (bridge ?p') ! j) = topic (?cs ! j)"
    by (simp add: nth sent_def)
  ultimately show ?thesis
    by (intro exI [of _ ?p'] conjI)
qed

theorem sink_failure_propagates_witness:
  "\<exists>p'. on_notify (failing_env ''/load_cells/ch3'' real) (stream_subscribed 0) ramp_frame
           = Inl (LogError, p') \<and>
      published (raw_chan (bridge p')) = [RawMsg 0 (unpack_floats (\<lambda>w. w) ramp_frame)] \<and>
      published (scalar_chans (bridge p') ! 1) = [ScalarMsg 0 117835012] \<and>
      published (scalar_chans (bridge p') ! 2) = [] \<and>
      published (scalar_chans (bridge p') ! 11) = []"
proof -
  let ?t = "''/load_cells/ch3''"
  let ?e = "failing_env ?t real"
  let ?p = "stream_subscribed 0 :: (32 word) stream_proc"
  let ?cs = "scalar_chans (bridge ?p)"
  have h: "chan_log ?e = (\<lambda>c msg. if topic c = ?t then Inl LogError else publish c msg)"
    by (simp add: failing_env_def)
  have lc: "length ?cs = N_CH"
    by (simp add: stream_subscribed_simps length_new_bridge_chans)
  have ld: "length ramp_frame = 48" by (simp add: frame_lengths)
  have m: "2 < N_CH" by (simp add: N_CH_def)
  have s1: "str_nat (Suc 0) = ''1''" and s2: "str_nat (Suc (Suc 0)) = ''2''" and s3: "str_nat 3 = ''3''"
    and s12: "str_nat 12 = ''12''"
    by code_simp+
  have ch: "\<And>i. i < N_CH \<Longrightarrow> ?cs ! i =
      \<lparr>topic = ''/load_cells/ch'' @ str_nat (i + 1), published = []\<rparr>"
    by (simp add: stream_subscribed_simps new_bridge_chan)
  have c0: "?cs ! 0 = \<lparr>topic = ''/load_cells/ch1'', published = []\<rparr>"
    using ch [of 0] by (simp add: N_CH_def s1)
  have c1: "?cs ! Suc 0 = \<lparr>topic = ''/load_cells/ch2'', published = []\<rparr>"
    using ch [of "Suc 0"] by (simp add: N_CH_def s2)
  have c2: "?cs ! 2 = \<lparr>topic = ''/load_cells/ch3'', published = []\<rparr>"
    using ch [of 2] by (simp add: N_CH_def s3)
  have c11: "?cs ! 11 = \<lparr>topic = ''/load_cells/ch12'', published = []\<rparr>"
    using ch [of 11] by (simp add: N_CH_def s12)
  have bad: "topic (?cs ! 2) = ?t" by (simp add: c2)
  have good: "\<forall>j < 2. topic (?cs ! j) \<noteq> ?t"
  proof (intro allI impI)
    fix j :: nat assume "j < 2"
    then have "j = 0 \<or> j = 1" by arith
    then show "topic (?cs ! j) \<noteq> ?t" using c0 c1 by auto
  qed
  have raw: "topic (raw_chan (bridge ?p)) \<noteq> ?t"
    by (simp add: stream_subscribed_simps new_bridge_def)
  from sink_failure_propagates [OF h lc ld m bad good raw] obtain p' where
    r: "on_notify ?e ?p ramp_frame = Inl (LogError, p') \<and>
      subscribed p' = subscribed ?p \<and>
      published (raw_chan (bridge p')) = published (raw_chan (bridge ?p)) @
        [RawMsg (wall_clock ?e (clock_reads ?p)) (unpack_floats (widen ?e) ramp_frame)] \<and>
      (\<forall>j < 2. published (scalar_chans (bridge p') ! j) =
        published (?cs ! j) @
        [ScalarMsg (wall_clock ?e (clock_reads ?p)) (unpack_floats (widen ?e) ramp_frame ! j)]) \<and>
      (\<forall>j < N_CH. 2 \<le> j \<longrightarrow> scalar_chans (bridge p') ! j = ?cs ! j) \<and>
      topic (raw_chan (bridge p')) = topic (raw_chan (bridge ?p)) \<and>
      length (scalar_chans (bridge p')) = N_CH \<and>
      (\<forall>j < N_CH. topic (scalar_chans (bridge p') ! j) = topic (?cs ! j))" ..
  note on = r [THEN conjunct1]
  have env: "wall_clock ?e = real" "widen ?e = (\<lambda>w. w)"
    by (simp_all add: failing_env_def)
  from r [THEN conjunct2, THEN conjunct2, THEN conjunct1]
  have a: "published (raw_chan (bridge p')) = [RawMsg 0 (unpack_floats (\<lambda>w. w) ramp_frame)]"
    by (simp add: env stream_subscribed_simps new_bridge_def)
  have "(1::nat) < 2" by simp
  from r [THEN conjunct2, THEN conjunct2, THEN conjunct2, THEN conjunct1, rule_format, OF this]
  have b: "published (scalar_chans (bridge p') ! 1) = [ScalarMsg 0 117835012]"
    by (simp add: env c1 unpack_ramp_frame stream_subscribed_simps(2))
  note rest = r [THEN conjunct2, THEN conjunct2, THEN conjunct2, THEN conjunct2,
      THEN conjunct1, rule_format]
  have "(2::nat) < N_CH" "(2::nat) \<le> 2" by (simp_all add: N_CH_def)
  from rest [OF this] have c: "published (scalar_chans (bridge p') ! 2) = []"
    by (simp add: c2)
  have "(11::nat) < N_CH" "(2::nat) \<le> 11" by (simp_all add: N_CH_def)
  from rest [OF this] have d: "published (scalar_chans (bridge p') ! 11) = []"
    by (simp add: c11)
  from on a b c d show ?thesis
    by (intro exI [of _ p'] conjI)
qed

end
